theory Spec2Isabelle
  imports Complex_Main
begin

section \<open>Strings and the word-character class\<close>

text \<open>
  A Python \<^verbatim>\<open>str\<close> is a sequence of Unicode code points, so a string is a list of
  natural numbers. \<^verbatim>\<open>str_of\<close> turns an ASCII literal into that form.

  The class \<^verbatim>\<open>\w\<close> of Python 3's \<^verbatim>\<open>re\<close> is \<^verbatim>\<open>[a-zA-Z0-9_]\<close> on ASCII. Beyond ASCII
  it follows the Unicode database, which is not part of the repository: it is the
  parameter \<open>uw\<close> of everything below.
\<close>

type_synonym codepoint = nat
type_synonym str = "codepoint list"

definition str_of :: "string \<Rightarrow> str" where
  "str_of s = map of_char s"

definition is_word :: "(codepoint \<Rightarrow> bool) \<Rightarrow> codepoint \<Rightarrow> bool" where
  "is_word uw c =
     (if c < 128
      then (48 \<le> c \<and> c \<le> 57) \<or> (65 \<le> c \<and> c \<le> 90) \<or> c = 95 \<or> (97 \<le> c \<and> c \<le> 122)
      else uw c)"

text \<open>The table with no word character beyond ASCII (the class under \<^verbatim>\<open>re.ASCII\<close>).\<close>

definition ascii_only :: "codepoint \<Rightarrow> bool" where
  "ascii_only c = False"

section \<open>clean_tweet\<close>

text \<open>
  \<^verbatim>\<open>
  def clean_tweet(tweet):
      cleaned_tweet = sub(r'@\w+|https://\w+|www.\w+', '', tweet)
      cleaned_tweet = sub(r'\W+', ' ', cleaned_tweet)
      cleaned_tweet = sub(r'#', '', cleaned_tweet)
      cleaned_tweet = sub(r'RT', '', cleaned_tweet)
      return cleaned_tweet
  \<close>
  \<^verbatim>\<open>re.sub\<close> scans from the left, replaces the match found at the current position
  and goes on behind it; where nothing matches it keeps the character and moves one
  position on. None of the four patterns matches the empty string.
\<close>

text \<open>\<^verbatim>\<open>\w+\<close> at the head of \<open>s\<close>: greedy, returns what is left behind the match.\<close>

definition word_run :: "(codepoint \<Rightarrow> bool) \<Rightarrow> str \<Rightarrow> str option" where
  "word_run uw s =
     (case s of
        [] \<Rightarrow> None
      | c # r \<Rightarrow> if is_word uw c then Some (dropWhile (is_word uw) r) else None)"

text \<open>The three alternatives of the first pattern, each at the head of \<open>s\<close>.\<close>

definition alt_mention :: "(codepoint \<Rightarrow> bool) \<Rightarrow> str \<Rightarrow> str option" where
  "alt_mention uw s =
     (if take 1 s = str_of ''@'' then word_run uw (drop 1 s) else None)"

definition alt_https :: "(codepoint \<Rightarrow> bool) \<Rightarrow> str \<Rightarrow> str option" where
  "alt_https uw s =
     (if take 8 s = str_of ''https://'' then word_run uw (drop 8 s) else None)"

text \<open>The dot of \<^verbatim>\<open>www.\w+\<close> is any character but the newline (code point 10).\<close>

definition alt_www :: "(codepoint \<Rightarrow> bool) \<Rightarrow> str \<Rightarrow> str option" where
  "alt_www uw s =
     (if take 3 s = str_of ''www'' \<and> 3 < length s \<and> s ! 3 \<noteq> 10
      then word_run uw (drop 4 s) else None)"

definition match_ref :: "(codepoint \<Rightarrow> bool) \<Rightarrow> str \<Rightarrow> str option" where
  "match_ref uw s =
     (case alt_mention uw s of
        Some r \<Rightarrow> Some r
      | None \<Rightarrow>
          (case alt_https uw s of
             Some r \<Rightarrow> Some r
           | None \<Rightarrow> alt_www uw s))"

text \<open>\<^verbatim>\<open>sub(r'@\w+|https://\w+|www.\w+', '', tweet)\<close>\<close>

function sub_refs :: "(codepoint \<Rightarrow> bool) \<Rightarrow> str \<Rightarrow> str" where
  "sub_refs uw [] = []"
| "sub_refs uw (c # r) =
     (case match_ref uw (c # r) of
        Some rest \<Rightarrow> sub_refs uw rest
      | None \<Rightarrow> c # sub_refs uw r)"
  by pat_completeness auto
termination
proof (relation "measure (\<lambda>(uw, s). length s)")
  show "wf (measure (\<lambda>(uw, s). length s))" by simp
next
  fix uw :: "codepoint \<Rightarrow> bool" and c :: codepoint and r rest :: str
  assume m: "match_ref uw (c # r) = Some rest"
  have run: "length b < length a" if "word_run uw a = Some b" for a b
    using that
    by (auto simp: word_run_def less_Suc_eq_le length_dropWhile_le
             split: list.splits if_splits)
  from m have "length rest < length (c # r)"
    by (auto simp: match_ref_def alt_mention_def alt_https_def alt_www_def
             split: option.splits if_splits dest!: run)
  then show "((uw, rest), (uw, c # r)) \<in> measure (\<lambda>(uw, s). length s)" by simp
next
  fix uw :: "codepoint \<Rightarrow> bool" and c :: codepoint and r :: str
  show "((uw, r), (uw, c # r)) \<in> measure (\<lambda>(uw, s). length s)" by simp
qed

text \<open>\<^verbatim>\<open>sub(r'\W+', ' ', cleaned_tweet)\<close>: a run of non-word characters becomes one space.\<close>

function sub_nonword :: "(codepoint \<Rightarrow> bool) \<Rightarrow> str \<Rightarrow> str" where
  "sub_nonword uw [] = []"
| "sub_nonword uw (c # r) =
     (if is_word uw c then c # sub_nonword uw r
      else 32 # sub_nonword uw (dropWhile (\<lambda>d. \<not> is_word uw d) r))"
  by pat_completeness auto
termination
  by (relation "measure (\<lambda>(uw, s). length s)")
     (auto simp: less_Suc_eq_le length_dropWhile_le)

text \<open>\<^verbatim>\<open>sub(r'#', '', cleaned_tweet)\<close>\<close>

definition sub_hash :: "str \<Rightarrow> str" where
  "sub_hash s = filter (\<lambda>c. c \<noteq> 35) s"

text \<open>\<^verbatim>\<open>sub(r'RT', '', cleaned_tweet)\<close>: \<open>R\<close> is 82 and \<open>T\<close> is 84.\<close>

fun sub_RT :: "str \<Rightarrow> str" where
  "sub_RT (a # b # r) = (if a = 82 \<and> b = 84 then sub_RT r else a # sub_RT (b # r))"
| "sub_RT s = s"

definition clean_tweet :: "(codepoint \<Rightarrow> bool) \<Rightarrow> str \<Rightarrow> str" where
  "clean_tweet uw tweet = sub_RT (sub_hash (sub_nonword uw (sub_refs uw tweet)))"

section \<open>The collaborators\<close>

text \<open>
  What the program takes from outside, gathered in one record:
  \<^item> \<open>unicode_word\<close>: the word characters beyond ASCII (see above);
  \<^item> \<open>environ\<close>: \<^verbatim>\<open>os.environ\<close>;
  \<^item> \<open>connect\<close>: whether \<^verbatim>\<open>OAuthHandler(...)\<close>, \<^verbatim>\<open>set_access_token(...)\<close> and
    \<^verbatim>\<open>API(...)\<close> complete for the four credentials (\<open>False\<close>: one of them raises);
  \<^item> \<open>search\<close>: the answer of \<^verbatim>\<open>Cursor(api.search, q=hashtag, lang='en')\<close> to the request
    made when \<open>k\<close> events have happened, for a hashtag and a number of items;
  \<^item> \<open>sentences\<close>: \<^verbatim>\<open>TextBlob(cleaned_tweet).sentences\<close>, \<open>None\<close> when it raises;
  \<^item> \<open>polarity\<close>: \<^verbatim>\<open>sentence.sentiment.polarity\<close>, \<open>None\<close> when it raises. The value
    is a float that is only compared with \<^verbatim>\<open>0.0\<close>; it is modelled by the real number
    it denotes;
  \<^item> \<open>word_cloud\<close>: whether \<^verbatim>\<open>WordCloud().generate_from_text\<close> and \<^verbatim>\<open>pplot.imsave\<close>
    complete for the joined text and the hashtag (\<open>False\<close>: one of them raises).
\<close>

datatype tweet = Tweet (text_of: str)

text \<open>
  The iterator either ends after its items, or raises after them. The loop body
  has run for every item that was delivered before.
\<close>

datatype page = Items "tweet list" | ItemsThenError "tweet list"

datatype api = API

record 's world =
  unicode_word :: "codepoint \<Rightarrow> bool"
  environ :: "str \<Rightarrow> str option"
  connect :: "str \<Rightarrow> str \<Rightarrow> str \<Rightarrow> str \<Rightarrow> bool"
  search :: "nat \<Rightarrow> str \<Rightarrow> nat \<Rightarrow> page"
  sentences :: "str \<Rightarrow> 's list option"
  polarity :: "'s \<Rightarrow> real option"
  word_cloud :: "str \<Rightarrow> str \<Rightarrow> bool"

text \<open>What the program does to the outside, in order.\<close>

datatype event = Searched str nat | WordCloudSaved str str

text \<open>Exceptions that leave \<^verbatim>\<open>get_tweets_and_sentiment\<close>.\<close>

datatype exn = SearchError | WordCloudError

section \<open>setup_twitter\<close>

text \<open>
  \<^verbatim>\<open>
  def setup_twitter():
      api = None
      try:
          consumer_key = environ['TWITTER_API_KEY']
          consumer_secret_token = environ['TWITTER_API_SECRET_KEY']
          access_token = environ['TWITTER_ACCESS_TOKEN']
          access_secret_token = environ['TWITTER_ACCESS_SECRET_TOKEN']
          auth_handle = OAuthHandler(consumer_key, consumer_secret_token)
          auth_handle.set_access_token(access_token, access_secret_token)
          api = API(auth_handle, wait_on_rate_limit=True)
      except Exception as e:
          print("Error occurred! Message: ",e)
      return api
  \<close>
  A missing variable raises \<^verbatim>\<open>KeyError\<close>, which the handler absorbs.
\<close>

definition setup_twitter :: "'s world \<Rightarrow> api option" where
  "setup_twitter w =
     (case environ w (str_of ''TWITTER_API_KEY'') of
        None \<Rightarrow> None
      | Some consumer_key \<Rightarrow>
     (case environ w (str_of ''TWITTER_API_SECRET_KEY'') of
        None \<Rightarrow> None
      | Some consumer_secret_token \<Rightarrow>
     (case environ w (str_of ''TWITTER_ACCESS_TOKEN'') of
        None \<Rightarrow> None
      | Some access_token \<Rightarrow>
     (case environ w (str_of ''TWITTER_ACCESS_SECRET_TOKEN'') of
        None \<Rightarrow> None
      | Some access_secret_token \<Rightarrow>
          if connect w consumer_key consumer_secret_token access_token access_secret_token
          then Some API else None))))"

section \<open>get_tweets_and_sentiment\<close>

text \<open>The variables of one hashtag's analysis; \<open>texts\<close> is the list \<^verbatim>\<open>text\<close>.\<close>

record tag_state =
  positive_tweets :: int
  negative_tweets :: int
  neutral_tweets :: int
  analyzed_tweets :: int
  texts :: "str list"

definition initial_state :: tag_state where
  "initial_state =
     \<lparr>positive_tweets = 0, negative_tweets = 0, neutral_tweets = 0,
      analyzed_tweets = 0, texts = []\<rparr>"

text \<open>
  \<^verbatim>\<open>
  for sentence in cleaned_tweet.sentences:
      polarity = sentence.sentiment.polarity
      if polarity > 0.0 :
          positive_tweets += 1
      elif polarity < 0.0 :
          negative_tweets += 1
      else:
          neutral_tweets += 1
  \<close>
  The counters are the function's own variables: what was added before a sentence
  raises stays added. The flag tells whether the loop came to its end.
\<close>

fun score_sentences :: "('s \<Rightarrow> real option) \<Rightarrow> 's list \<Rightarrow> tag_state \<Rightarrow> tag_state \<times> bool" where
  "score_sentences pol [] st = (st, True)"
| "score_sentences pol (sentence # rest) st =
     (case pol sentence of
        None \<Rightarrow> (st, False)
      | Some p \<Rightarrow>
          score_sentences pol rest
            (if p > 0 then st\<lparr>positive_tweets := positive_tweets st + 1\<rparr>
             else if p < 0 then st\<lparr>negative_tweets := negative_tweets st + 1\<rparr>
             else st\<lparr>neutral_tweets := neutral_tweets st + 1\<rparr>))"

text \<open>
  The body of the loop over a page, with its handler:
  \<^verbatim>\<open>
  try:
      cleaned_tweet = clean_tweet(str(tweet.text))
      text.append(cleaned_tweet)
      cleaned_tweet = TextBlob(cleaned_tweet)
      for sentence in cleaned_tweet.sentences: ...
      analyzed_tweets += 1
  except Exception:
      continue
  \<close>
\<close>

definition process_tweet :: "'s world \<Rightarrow> tweet \<Rightarrow> tag_state \<Rightarrow> tag_state" where
  "process_tweet w tw st =
     (let cleaned_tweet = clean_tweet (unicode_word w) (text_of tw);
          st1 = st\<lparr>texts := texts st @ [cleaned_tweet]\<rparr>
      in case sentences w cleaned_tweet of
           None \<Rightarrow> st1
         | Some ss \<Rightarrow>
             (case score_sentences (polarity w) ss st1 of
                (st2, True) \<Rightarrow> st2\<lparr>analyzed_tweets := analyzed_tweets st2 + 1\<rparr>
              | (st2, False) \<Rightarrow> st2))"

fun for_tweets :: "'s world \<Rightarrow> tweet list \<Rightarrow> tag_state \<Rightarrow> tag_state" where
  "for_tweets w [] st = st"
| "for_tweets w (tw # tws) st = for_tweets w tws (process_tweet w tw st)"

text \<open>
  \<^verbatim>\<open>.items(count_per_request)\<close> delivers at most that many items; an iterator that
  would raise behind more items than that is never asked for them. (The program
  never asks for 0 items, see \<open>count_per_request_range\<close>.)
\<close>

fun items :: "page \<Rightarrow> nat \<Rightarrow> tweet list \<times> bool" where
  "items (Items tws) limit = (take limit tws, False)"
| "items (ItemsThenError tws) limit = (take limit tws, length tws < limit)"

text \<open>
  \<^verbatim>\<open>
  count_per_request = 100
  if (number_of_tweets - analyzed_tweets) == last_window:
      count_per_request = last_window
  \<close>
\<close>

definition count_per_request :: "int \<Rightarrow> int \<Rightarrow> int \<Rightarrow> int" where
  "count_per_request number_of_tweets analyzed last_window =
     (if number_of_tweets - analyzed = last_window then last_window else 100)"

text \<open>
  \<^verbatim>\<open>
  while analyzed_tweets < number_of_tweets :
      ...
      for tweet in Cursor(api.search, q=hashtag, lang='en').items(count_per_request):
          ...
      print(...)
  \<close>
  Nothing in the loop bounds the number of rounds, so the model takes fuel, one unit
  for each round: \<open>None\<close> says that the fuel did not suffice.
\<close>

fun while_loop ::
  "nat \<Rightarrow> 's world \<Rightarrow> str \<Rightarrow> int \<Rightarrow> int \<Rightarrow> tag_state \<Rightarrow> event list
     \<Rightarrow> ((exn + tag_state) \<times> event list) option" where
  "while_loop 0 w hashtag number_of_tweets last_window st tr =
     (if analyzed_tweets st < number_of_tweets then None else Some (Inr st, tr))"
| "while_loop (Suc fuel) w hashtag number_of_tweets last_window st tr =
     (if analyzed_tweets st < number_of_tweets then
        (let c = nat (count_per_request number_of_tweets (analyzed_tweets st) last_window);
             tr' = tr @ [Searched hashtag c]
         in case items (search w (length tr) hashtag c) c of
              (tws, raised) \<Rightarrow>
                if raised then Some (Inl SearchError, tr')
                else while_loop fuel w hashtag number_of_tweets last_window
                       (for_tweets w tws st) tr')
      else Some (Inr st, tr))"

text \<open>\<^verbatim>\<open>' '.join(text)\<close>\<close>

fun join :: "str \<Rightarrow> str list \<Rightarrow> str" where
  "join sep [] = []"
| "join sep [x] = x"
| "join sep (x # y # r) = x @ sep @ join sep (y # r)"

text \<open>The dictionary \<^verbatim>\<open>results\<close> has the three keys it is created with.\<close>

record results =
  positive :: "int list"
  negative :: "int list"
  neutral :: "int list"

definition append_results :: "results \<Rightarrow> tag_state \<Rightarrow> results" where
  "append_results res st =
     \<lparr>positive = positive res @ [positive_tweets st],
      negative = negative res @ [negative_tweets st],
      neutral = neutral res @ [neutral_tweets st]\<rparr>"

text \<open>
  \<^verbatim>\<open>
  for hashtag in hashtags:
      positive_tweets = 0; negative_tweets = 0; neutral_tweets = 0; analyzed_tweets = 0
      last_window = number_of_tweets % 100
      text = []
      while ...
      word_cloud = WordCloud().generate_from_text(' '.join(text))
      pplot.imsave(arr=word_cloud, fname='Word_Cloud_'+hashtag+'.png', format='png')
      results['positive'].append(positive_tweets)
      results['negative'].append(negative_tweets)
      results['neutral'].append(neutral_tweets)
  \<close>
\<close>

fun for_hashtags ::
  "nat \<Rightarrow> 's world \<Rightarrow> int \<Rightarrow> str list \<Rightarrow> results \<Rightarrow> event list
     \<Rightarrow> ((exn + results) \<times> event list) option" where
  "for_hashtags fuel w number_of_tweets [] res tr = Some (Inr res, tr)"
| "for_hashtags fuel w number_of_tweets (hashtag # rest) res tr =
     (case while_loop fuel w hashtag number_of_tweets (number_of_tweets mod 100)
             initial_state tr of
        None \<Rightarrow> None
      | Some (Inl e, tr1) \<Rightarrow> Some (Inl e, tr1)
      | Some (Inr st, tr1) \<Rightarrow>
          (let joined = join (str_of '' '') (texts st)
           in if word_cloud w joined hashtag
              then for_hashtags fuel w number_of_tweets rest (append_results res st)
                     (tr1 @ [WordCloudSaved hashtag joined])
              else Some (Inl WordCloudError, tr1)))"

text \<open>
  \<^verbatim>\<open>
  def get_tweets_and_sentiment(hashtags=None, number_of_tweets=1000):
      api = setup_twitter()
      if api is None:
          return "Twitter setup failed! Please check your credentials!"
      results = {'positive': [], 'negative': [], 'neutral': []}
      for hashtag in hashtags: ...
      return results
  \<close>
  The function returns a string or the dictionary. \<open>hashtags\<close> is the list the
  caller passes.
\<close>

datatype returned = Message str | Results results

definition empty_results :: results where
  "empty_results = \<lparr>positive = [], negative = [], neutral = []\<rparr>"

definition get_tweets_and_sentiment ::
  "nat \<Rightarrow> 's world \<Rightarrow> str list \<Rightarrow> int \<Rightarrow> ((exn + returned) \<times> event list) option" where
  "get_tweets_and_sentiment fuel w hashtags number_of_tweets =
     (case setup_twitter w of
        None \<Rightarrow>
          Some (Inr (Message (str_of ''Twitter setup failed! Please check your credentials!'')), [])
      | Some a \<Rightarrow>
          (case for_hashtags fuel w number_of_tweets hashtags empty_results [] of
             None \<Rightarrow> None
           | Some (Inl e, tr) \<Rightarrow> Some (Inl e, tr)
           | Some (Inr res, tr) \<Rightarrow> Some (Inr (Results res), tr)))"

section \<open>Notions used in the statements\<close>

subsection \<open>Texts that clean_tweet leaves alone\<close>

text \<open>No position of the text starts a match of the first pattern.\<close>

fun no_ref :: "(codepoint \<Rightarrow> bool) \<Rightarrow> str \<Rightarrow> bool" where
  "no_ref uw [] = True"
| "no_ref uw (c # r) = (match_ref uw (c # r) = None \<and> no_ref uw r)"

text \<open>No two spaces are adjacent.\<close>

fun single_spaced :: "str \<Rightarrow> bool" where
  "single_spaced (a # b # r) = (\<not> (a = 32 \<and> b = 32) \<and> single_spaced (b # r))"
| "single_spaced s = True"

text \<open>\<^verbatim>\<open>RT\<close> does not occur.\<close>

fun no_RT :: "str \<Rightarrow> bool" where
  "no_RT (a # b # r) = (\<not> (a = 82 \<and> b = 84) \<and> no_RT (b # r))"
| "no_RT s = True"

definition settled :: "(codepoint \<Rightarrow> bool) \<Rightarrow> str \<Rightarrow> bool" where
  "settled uw t = (no_ref uw t \<and> single_spaced t \<and> no_RT t)"

text \<open>Only word characters and spaces.\<close>

definition wordy :: "(codepoint \<Rightarrow> bool) \<Rightarrow> str \<Rightarrow> bool" where
  "wordy uw t = list_all (\<lambda>c. is_word uw c \<or> c = 32) t"

text \<open>\<open>contains p s\<close>: the string \<open>p\<close> occurs in \<open>s\<close>.\<close>

fun contains :: "str \<Rightarrow> str \<Rightarrow> bool" where
  "contains p [] = (p = [])"
| "contains p (c # r) = (take (length p) (c # r) = p \<or> contains p r)"

subsection \<open>Accounting for a tally\<close>

definition tally_sum :: "tag_state \<Rightarrow> int" where
  "tally_sum st = positive_tweets st + negative_tweets st + neutral_tweets st"

text \<open>
  For a cleaned text: the number of its sentences that are scored before the first
  one that raises, and whether the whole text goes through.
\<close>

definition scored :: "'s world \<Rightarrow> str \<Rightarrow> nat" where
  "scored w t =
     (case sentences w t of
        None \<Rightarrow> 0
      | Some ss \<Rightarrow> length (takeWhile (\<lambda>s. polarity w s \<noteq> None) ss))"

definition classified :: "'s world \<Rightarrow> str \<Rightarrow> bool" where
  "classified w t =
     (case sentences w t of
        None \<Rightarrow> False
      | Some ss \<Rightarrow> list_all (\<lambda>s. polarity w s \<noteq> None) ss)"

definition classifies :: "'s world \<Rightarrow> tweet \<Rightarrow> bool" where
  "classifies w tw = classified w (clean_tweet (unicode_word w) (text_of tw))"

text \<open>A text without a sentence: it goes through and adds nothing.\<close>

definition blank :: "'s world \<Rightarrow> str \<Rightarrow> bool" where
  "blank w t = (sentences w t = Some [])"

text \<open>The four counters of a state.\<close>

definition counters :: "tag_state \<Rightarrow> int \<times> int \<times> int \<times> int" where
  "counters st =
     (positive_tweets st, negative_tweets st, neutral_tweets st, analyzed_tweets st)"

subsection \<open>The segmenter\<close>

text \<open>
  \<^verbatim>\<open>TextBlob(...).sentences\<close> belongs to a library, not to the repository. It ends a
  sentence behind \<open>!\<close> (33), \<open>.\<close> (46) or \<open>?\<close> (63) only, so a text with none of
  the three has at most one sentence. The statements that depend on this take it
  as a hypothesis on the world.
\<close>

definition terminators :: "codepoint set" where
  "terminators = {33, 46, 63}"

definition splits_at_terminators :: "'s world \<Rightarrow> bool" where
  "splits_at_terminators w =
     (\<forall>t ss. set t \<inter> terminators = {} \<longrightarrow> sentences w t = Some ss \<longrightarrow> length ss \<le> 1)"

text \<open>No collected text has a terminator.\<close>

definition tidy :: "tag_state \<Rightarrow> bool" where
  "tidy st = (\<forall>t \<in> set (texts st). set t \<inter> terminators = {})"

subsection \<open>Sources\<close>

text \<open>
  Every answer to a request for the hashtag either raises or holds, among the items
  it delivers, a tweet that goes through.
\<close>

definition productive :: "'s world \<Rightarrow> str \<Rightarrow> bool" where
  "productive w hashtag =
     (\<forall>k c. 0 < c \<longrightarrow>
        snd (items (search w k hashtag c) c)
        \<or> (\<exists>tw \<in> set (fst (items (search w k hashtag c) c)). classifies w tw))"

text \<open>
  Every answer to a request for the hashtag is a full page of tweets that all go
  through.
\<close>

definition faultless :: "'s world \<Rightarrow> str \<Rightarrow> bool" where
  "faultless w hashtag =
     (\<forall>k c. \<exists>tws. search w k hashtag c = Items tws \<and> c \<le> length tws
        \<and> (\<forall>tw \<in> set (take c tws). classifies w tw))"

text \<open>Pages of 100, then the remainder if there is one.\<close>

definition windows :: "int \<Rightarrow> nat list" where
  "windows r =
     replicate (nat (r div 100)) 100 @ (if r mod 100 = 0 then [] else [nat (r mod 100)])"

section \<open>A small world for concrete runs\<close>

text \<open>
  A cleaned text is one sentence, or none when it is blank; a text that contains
  \<open>S\<close> (83) cannot be segmented. Scoring a sentence that contains \<open>x\<close> (120)
  raises; otherwise a sentence with \<open>p\<close> (112) scores positive, one with \<open>n\<close>
  (110) negative, and every other one scores 0. The four credentials are set, and
  the word cloud is always written.
\<close>

definition toy_sentences :: "str \<Rightarrow> str list option" where
  "toy_sentences t =
     (if 83 \<in> set t then None
      else if list_all (\<lambda>c. c = 32) t then Some [] else Some [t])"

definition toy_polarity :: "str \<Rightarrow> real option" where
  "toy_polarity s =
     (if 120 \<in> set s then None
      else if 112 \<in> set s then Some (1 / 2)
      else if 110 \<in> set s then Some (- 1 / 4) else Some 0)"

definition toy_environ :: "str \<Rightarrow> str option" where
  "toy_environ k =
     (if k \<in> {str_of ''TWITTER_API_KEY'', str_of ''TWITTER_API_SECRET_KEY'',
               str_of ''TWITTER_ACCESS_TOKEN'', str_of ''TWITTER_ACCESS_SECRET_TOKEN''}
      then Some (str_of ''secret'') else None)"

definition toy :: "(nat \<Rightarrow> str \<Rightarrow> nat \<Rightarrow> page) \<Rightarrow> str world" where
  "toy src =
     \<lparr>unicode_word = ascii_only, environ = toy_environ, connect = (\<lambda>a b c d. True),
      search = src, sentences = toy_sentences, polarity = toy_polarity,
      word_cloud = (\<lambda>joined hashtag. True)\<rparr>"

text \<open>The same world without credentials.\<close>

definition toy_locked :: "(nat \<Rightarrow> str \<Rightarrow> nat \<Rightarrow> page) \<Rightarrow> str world" where
  "toy_locked src = (toy src)\<lparr>environ := (\<lambda>k. None)\<rparr>"

text \<open>Sources. The first three answer every request the same way.\<close>

definition dry :: "nat \<Rightarrow> str \<Rightarrow> nat \<Rightarrow> page" where
  "dry k hashtag c = Items []"

definition one_fails :: "nat \<Rightarrow> str \<Rightarrow> nat \<Rightarrow> page" where
  "one_fails k hashtag c =
     (if k = 0 then Items [Tweet (str_of ''S''), Tweet (str_of ''p'')]
      else Items [Tweet (str_of ''n'')])"

definition steady :: "nat \<Rightarrow> str \<Rightarrow> nat \<Rightarrow> page" where
  "steady k hashtag c = Items (replicate c (Tweet (str_of ''@you ok'')))"

text \<open>
  A first page of one tweet that is blank once cleaned, whatever was asked for, then
  pages of three tweets.
\<close>

definition blank_then_three :: "nat \<Rightarrow> str \<Rightarrow> nat \<Rightarrow> page" where
  "blank_then_three k hashtag c =
     (if k = 0 then Items [Tweet (str_of ''@you'')]
      else Items (replicate 3 (Tweet (str_of ''p''))))"

text \<open>The states in which three of these runs end.\<close>

definition blank_then_three_final :: tag_state where
  "blank_then_three_final =
     \<lparr>positive_tweets = 3, negative_tweets = 0, neutral_tweets = 0,
      analyzed_tweets = 4, texts = [[], str_of ''p'', str_of ''p'', str_of ''p'']\<rparr>"

definition steady_final :: tag_state where
  "steady_final =
     \<lparr>positive_tweets = 0, negative_tweets = 0, neutral_tweets = 3,
      analyzed_tweets = 3, texts = [str_of '' ok'', str_of '' ok'', str_of '' ok'']\<rparr>"

definition one_fails_final :: tag_state where
  "one_fails_final =
     \<lparr>positive_tweets = 1, negative_tweets = 1, neutral_tweets = 0,
      analyzed_tweets = 2, texts = [str_of ''S'', str_of ''p'', str_of ''n'']\<rparr>"

text \<open>The invariant of a hashtag's analysis: the counters are explained by \<open>texts\<close>.\<close>

definition accounted :: "'s world \<Rightarrow> tag_state \<Rightarrow> bool" where
  "accounted w st =
     (tally_sum st = (\<Sum>t\<leftarrow>texts st. int (scored w t))
      \<and> analyzed_tweets st = int (length (filter (classified w) (texts st))))"

lemmas run_defs =
  get_tweets_and_sentiment_def setup_twitter_def toy_def toy_locked_def toy_environ_def
  toy_sentences_def toy_polarity_def str_of_def count_per_request_def initial_state_def
  process_tweet_def clean_tweet_def match_ref_def alt_mention_def alt_https_def alt_www_def
  word_run_def is_word_def ascii_only_def sub_hash_def append_results_def empty_results_def
  dry_def one_fails_def steady_def blank_then_three_def tally_sum_def
  blank_then_three_final_def one_fails_final_def steady_final_def

section \<open>Properties of clean_tweet\<close>

subsection \<open>What the result is made of\<close>

lemma word_run_shorter: "word_run uw s = Some r \<Longrightarrow> length r < length s"
  by (auto simp: word_run_def less_Suc_eq_le length_dropWhile_le
           split: list.splits if_splits)

lemma match_ref_shorter: "match_ref uw s = Some r \<Longrightarrow> length r < length s"
  by (auto simp: match_ref_def alt_mention_def alt_https_def alt_www_def
           split: option.splits if_splits dest!: word_run_shorter)

lemma word_run_suffix: "word_run uw s = Some r \<Longrightarrow> set r \<subseteq> set s"
  by (auto simp: word_run_def split: list.splits if_splits dest: set_dropWhileD)

lemma match_ref_suffix: "match_ref uw s = Some r \<Longrightarrow> set r \<subseteq> set s"
  by (auto simp: match_ref_def alt_mention_def alt_https_def alt_www_def
           split: option.splits if_splits dest!: word_run_suffix dest: in_set_dropD)

lemma set_sub_refs: "set (sub_refs uw s) \<subseteq> set s"
proof (induction uw s rule: sub_refs.induct)
  case (1 uw)
  then show ?case by simp
next
  case (2 uw c r)
  show ?case
  proof (cases "match_ref uw (c # r)")
    case None
    with 2 show ?thesis by auto
  next
    case (Some rest)
    with 2 match_ref_suffix[OF Some] show ?thesis by auto
  qed
qed

lemma wordy_sub_nonword: "wordy uw (sub_nonword uw s)"
  by (induction uw s rule: sub_nonword.induct) (auto simp: wordy_def)

lemma set_sub_RT: "set (sub_RT s) \<subseteq> set s"
  by (induction s rule: sub_RT.induct) auto

lemma wordy_clean_tweet: "wordy uw (clean_tweet uw s)"
proof -
  have "set (clean_tweet uw s) \<subseteq> set (sub_nonword uw (sub_refs uw s))"
    unfolding clean_tweet_def sub_hash_def using set_sub_RT by fastforce
  with wordy_sub_nonword[of uw "sub_refs uw s"] show ?thesis
    by (auto simp: wordy_def list_all_iff)
qed

lemma clean_tweet_no_terminators: "set (clean_tweet uw t) \<inter> terminators = {}"
proof -
  have "\<not> is_word uw 33" "\<not> is_word uw 46" "\<not> is_word uw 63"
    by (simp_all add: is_word_def)
  with wordy_clean_tweet[of uw t] show ?thesis
    by (auto simp: wordy_def list_all_iff terminators_def)
qed

subsection \<open>Each substitution shortens the text or leaves it alone\<close>

lemma length_sub_refs: "length (sub_refs uw s) \<le> length s"
proof (induction uw s rule: sub_refs.induct)
  case (1 uw)
  then show ?case by simp
next
  case (2 uw c r)
  show ?case
  proof (cases "match_ref uw (c # r)")
    case None
    with 2 show ?thesis by auto
  next
    case (Some rest)
    with 2 match_ref_shorter[OF Some] show ?thesis by auto
  qed
qed

lemma sub_refs_fixed: "length (sub_refs uw s) = length s \<longleftrightarrow> no_ref uw s"
proof (induction s)
  case Nil
  then show ?case by simp
next
  case (Cons c r)
  show ?case
  proof (cases "match_ref uw (c # r)")
    case None
    with Cons show ?thesis by auto
  next
    case (Some rest)
    with length_sub_refs[of uw rest] match_ref_shorter[OF Some] show ?thesis by auto
  qed
qed

lemma no_ref_sub_refs: "no_ref uw s \<Longrightarrow> sub_refs uw s = s"
  by (induction s) auto

lemma length_sub_nonword: "length (sub_nonword uw s) \<le> length s"
proof (induction uw s rule: sub_nonword.induct)
  case (1 uw)
  then show ?case by simp
next
  case (2 uw c r)
  have "length (dropWhile (\<lambda>d. \<not> is_word uw d) r) \<le> length r"
    by (rule length_dropWhile_le)
  with 2 show ?case by auto
qed

lemma single_spaced_Cons: "c \<noteq> 32 \<Longrightarrow> single_spaced (c # r) = single_spaced r"
  by (cases r) auto

lemma not_word_32: "\<not> is_word uw 32"
  by (simp add: is_word_def)

lemma sub_nonword_fixed:
  "wordy uw s \<Longrightarrow> length (sub_nonword uw s) = length s \<longleftrightarrow> single_spaced s"
proof (induction s)
  case Nil
  then show ?case by simp
next
  case (Cons c r)
  show ?case
  proof (cases "is_word uw c")
    case True
    then have "c \<noteq> 32" using not_word_32 by auto
    with True Cons show ?thesis by (simp add: single_spaced_Cons wordy_def)
  next
    case False
    with Cons.prems have c: "c = 32" by (simp add: wordy_def)
    show ?thesis
    proof (cases r)
      case Nil
      with False show ?thesis by simp
    next
      case (Cons d r')
      show ?thesis
      proof (cases "is_word uw d")
        case True
        with False c Cons Cons.IH Cons.prems not_word_32[of uw] show ?thesis
          by (auto simp: wordy_def)
      next
        case nw: False
        have "length (sub_nonword uw (dropWhile (\<lambda>d. \<not> is_word uw d) r')) \<le> length r'"
          using length_sub_nonword[of uw "dropWhile (\<lambda>d. \<not> is_word uw d) r'"]
                length_dropWhile_le[of "\<lambda>d. \<not> is_word uw d" r'] by linarith
        moreover from nw Cons Cons.prems have "d = 32" by (simp add: wordy_def)
        ultimately show ?thesis using False c Cons nw by auto
      qed
    qed
  qed
qed

lemma single_spaced_sub_nonword:
  "wordy uw s \<Longrightarrow> single_spaced s \<Longrightarrow> sub_nonword uw s = s"
proof (induction s)
  case Nil
  then show ?case by simp
next
  case (Cons c r)
  show ?case
  proof (cases "is_word uw c")
    case True
    then have "c \<noteq> 32" using not_word_32 by auto
    with True Cons show ?thesis by (simp add: single_spaced_Cons wordy_def)
  next
    case False
    with Cons.prems have c: "c = 32" by (simp add: wordy_def)
    show ?thesis
    proof (cases r)
      case Nil
      with False c show ?thesis by simp
    next
      case (Cons d r')
      with c Cons.prems have "d \<noteq> 32" by auto
      with Cons Cons.prems have "is_word uw d" by (auto simp: wordy_def)
      with False c Cons Cons.IH Cons.prems show ?thesis by (auto simp: wordy_def)
    qed
  qed
qed

lemma wordy_sub_hash: "wordy uw s \<Longrightarrow> sub_hash s = s"
  by (induction s) (auto simp: wordy_def sub_hash_def is_word_def)

lemma length_sub_RT: "length (sub_RT s) \<le> length s"
  by (induction s rule: sub_RT.induct) auto

lemma sub_RT_fixed: "sub_RT s = s \<longleftrightarrow> no_RT s"
proof (induction s rule: sub_RT.induct)
  case (1 a b r)
  show ?case
  proof (cases "a = 82 \<and> b = 84")
    case True
    have "length (sub_RT r) \<le> length r" by (rule length_sub_RT)
    then have "sub_RT r \<noteq> a # b # r" by auto
    with True show ?thesis by simp
  next
    case False
    with 1 show ?thesis by auto
  qed
qed auto

lemma clean_tweet_fixed:
  assumes "wordy uw t"
  shows "clean_tweet uw t = t \<longleftrightarrow> settled uw t"
proof
  assume s: "settled uw t"
  then have "sub_refs uw t = t" by (simp add: settled_def no_ref_sub_refs)
  moreover have "sub_nonword uw t = t"
    using s assms by (simp add: settled_def single_spaced_sub_nonword)
  moreover have "sub_hash t = t" using assms by (rule wordy_sub_hash)
  moreover have "sub_RT t = t" using s by (simp add: settled_def sub_RT_fixed)
  ultimately show "clean_tweet uw t = t" by (simp add: clean_tweet_def)
next
  assume f: "clean_tweet uw t = t"
  let ?a = "sub_refs uw t"
  let ?b = "sub_nonword uw ?a"
  let ?c = "sub_hash ?b"
  have "length t = length (sub_RT ?c)" using f by (simp add: clean_tweet_def)
  also have "\<dots> \<le> length ?c" by (rule length_sub_RT)
  also have "\<dots> \<le> length ?b" by (simp add: sub_hash_def)
  finally have tb: "length t \<le> length ?b" .
  have ba: "length ?b \<le> length ?a" by (rule length_sub_nonword)
  have at: "length ?a \<le> length t" by (rule length_sub_refs)
  from tb ba at have "length ?a = length t" by linarith
  then have nr: "no_ref uw t" by (simp add: sub_refs_fixed)
  then have a: "?a = t" by (rule no_ref_sub_refs)
  from tb ba at a have "length (sub_nonword uw t) = length t" by simp
  then have ss: "single_spaced t" using assms by (simp add: sub_nonword_fixed)
  then have b: "sub_nonword uw t = t" using assms by (simp add: single_spaced_sub_nonword)
  have c: "sub_hash t = t" using assms by (rule wordy_sub_hash)
  from f a b c have "sub_RT t = t" by (simp add: clean_tweet_def)
  then have "no_RT t" by (simp add: sub_RT_fixed)
  with nr ss show "settled uw t" by (simp add: settled_def)
qed

lemma hello_cleaned:
  "clean_tweet ascii_only (str_of ''RT @bob: hello'') = str_of '' hello''"
  by code_simp

subsection \<open>Claim C4: idempotence\<close>

text \<open>
  Claim C4 says that \<open>clean_tweet\<close> is idempotent. It is not: removing \<^verbatim>\<open>RT\<close> is the
  last step, so the two spaces around a removed \<^verbatim>\<open>RT\<close> stay adjacent, and a second
  pass collapses them. \<^verbatim>\<open>'a RT b'\<close> becomes \<^verbatim>\<open>'a  b'\<close>, which becomes \<^verbatim>\<open>'a b'\<close>.
\<close>

theorem clean_tweet_not_idempotent:
  "clean_tweet ascii_only (str_of ''a RT b'') = str_of ''a  b''
   \<and> clean_tweet ascii_only (clean_tweet ascii_only (str_of ''a RT b'')) = str_of ''a b''
   \<and> clean_tweet ascii_only (clean_tweet ascii_only (str_of ''a RT b''))
       \<noteq> clean_tweet ascii_only (str_of ''a RT b'')"
  by code_simp

text \<open>
  Claim C4 as amended: cleaning a cleaned text again yields the same text exactly
  when the cleaned text is settled, that is, when it has no match of the first
  pattern left (in a cleaned text: no \<^verbatim>\<open>www\<close> followed by one character and a word
  character), no two adjacent spaces and no \<^verbatim>\<open>RT\<close>.
\<close>

theorem clean_tweet_twice:
  "clean_tweet uw (clean_tweet uw s) = clean_tweet uw s \<longleftrightarrow> settled uw (clean_tweet uw s)"
  by (rule clean_tweet_fixed[OF wordy_clean_tweet])

theorem clean_tweet_twice_witness:
  "settled ascii_only (clean_tweet ascii_only (str_of ''RT @bob: hello''))
   \<and> clean_tweet ascii_only (clean_tweet ascii_only (str_of ''RT @bob: hello''))
       = clean_tweet ascii_only (str_of ''RT @bob: hello'')"
proof -
  have s: "settled ascii_only (clean_tweet ascii_only (str_of ''RT @bob: hello''))"
    by code_simp
  with clean_tweet_twice[of ascii_only "str_of ''RT @bob: hello''"] show ?thesis
    by blast
qed

subsection \<open>Claim C5: what a cleaned text no longer contains\<close>

text \<open>
  Claim C5 says that the result for a text with a mention or a link has no \<^verbatim>\<open>@\<close>,
  no \<^verbatim>\<open>http\<close> or \<^verbatim>\<open>www\<close>, no \<^verbatim>\<open>#\<close> and no \<^verbatim>\<open>RT\<close>. The first pattern deletes
  \<^verbatim>\<open>https://\<close> with the word behind it and \<^verbatim>\<open>www\<close> with a character and a word behind
  it, nothing else: in the text below, which has a mention, \<^verbatim>\<open>http\<close> and \<^verbatim>\<open>www\<close> are
  still there after cleaning.
\<close>

theorem clean_tweet_keeps_http_www:
  "contains (str_of ''@bob'') (str_of ''@bob http://t.co awww'')
   \<and> clean_tweet ascii_only (str_of ''@bob http://t.co awww'') = str_of '' http t co awww''
   \<and> contains (str_of ''http'') (str_of '' http t co awww'')
   \<and> contains (str_of ''www'') (str_of '' http t co awww'')"
  by code_simp

text \<open>
  Claim C5 as amended: for every text, the result of \<open>clean_tweet\<close> contains
  neither \<^verbatim>\<open>@\<close> nor \<^verbatim>\<open>#\<close>.
\<close>

theorem clean_tweet_no_at_no_hash:
  "set (clean_tweet uw tweet) \<inter> set (str_of ''@#'') = {}"
proof -
  have "\<not> is_word uw 64" "\<not> is_word uw 35" by (simp_all add: is_word_def)
  with wordy_clean_tweet[of uw tweet] show ?thesis
    by (auto simp: wordy_def list_all_iff str_of_def)
qed

theorem clean_tweet_no_at_no_hash_witness:
  "set (clean_tweet ascii_only (str_of ''@bob #x'')) \<inter> set (str_of ''@#'') = {}"
  by (rule clean_tweet_no_at_no_hash[of ascii_only "str_of ''@bob #x''"])

subsection \<open>Claim C10: only word characters and spaces\<close>

text \<open>
  Claim C10: every character of the result of \<open>clean_tweet\<close> is a word character
  (a letter, a digit or the underscore) or a space.
\<close>

theorem clean_tweet_word_or_space:
  "c \<in> set (clean_tweet uw tweet) \<Longrightarrow> is_word uw c \<or> c = 32"
  using wordy_clean_tweet[of uw tweet] by (auto simp: wordy_def list_all_iff)

theorem clean_tweet_word_or_space_witness:
  "101 \<in> set (clean_tweet ascii_only (str_of ''RT @bob: hello''))
   \<and> (is_word ascii_only 101 \<or> (101::nat) = 32)"
proof -
  have m: "101 \<in> set (clean_tweet ascii_only (str_of ''RT @bob: hello''))"
    unfolding hello_cleaned by (simp add: str_of_def)
  from clean_tweet_word_or_space[OF m] m show ?thesis by blast
qed

section \<open>Properties of the analysis of a hashtag\<close>

subsection \<open>What one tweet and one page do to the counters\<close>

lemma score_sentences_effect:
  "score_sentences pol ss st = (st', ok) \<Longrightarrow>
     tally_sum st' = tally_sum st + int (length (takeWhile (\<lambda>s. pol s \<noteq> None) ss))
     \<and> ok = list_all (\<lambda>s. pol s \<noteq> None) ss
     \<and> analyzed_tweets st' = analyzed_tweets st
     \<and> texts st' = texts st"
proof (induction ss arbitrary: st)
  case Nil
  then show ?case by simp
next
  case (Cons s ss)
  show ?case
  proof (cases "pol s")
    case None
    with Cons.prems show ?thesis by simp
  next
    case (Some p)
    let ?st1 = "if p > 0 then st\<lparr>positive_tweets := positive_tweets st + 1\<rparr>
             else if p < 0 then st\<lparr>negative_tweets := negative_tweets st + 1\<rparr>
             else st\<lparr>neutral_tweets := neutral_tweets st + 1\<rparr>"
    from Cons.prems Some have "score_sentences pol ss ?st1 = (st', ok)" by simp
    from Cons.IH[OF this] Some show ?thesis by (simp add: tally_sum_def)
  qed
qed

lemma process_tweet_all:
  "texts (process_tweet w tw st) = texts st @ [clean_tweet (unicode_word w) (text_of tw)]
   \<and> tally_sum (process_tweet w tw st)
       = tally_sum st + int (scored w (clean_tweet (unicode_word w) (text_of tw)))
   \<and> analyzed_tweets (process_tweet w tw st)
       = analyzed_tweets st + (if classifies w tw then 1 else 0)"
proof -
  let ?t = "clean_tweet (unicode_word w) (text_of tw)"
  let ?st1 = "st\<lparr>texts := texts st @ [?t]\<rparr>"
  show ?thesis
  proof (cases "sentences w ?t")
    case None
    then show ?thesis
      by (simp add: process_tweet_def scored_def classifies_def classified_def tally_sum_def)
  next
    case (Some ss)
    obtain st2 ok where sc: "score_sentences (polarity w) ss ?st1 = (st2, ok)"
      by (cases "score_sentences (polarity w) ss ?st1")
    from score_sentences_effect[OF sc] Some sc show ?thesis
      by (cases ok)
         (simp_all add: process_tweet_def scored_def classifies_def classified_def tally_sum_def)
  qed
qed

lemmas process_tweet_effect =
  process_tweet_all[THEN conjunct1]
  process_tweet_all[THEN conjunct2, THEN conjunct1]
  process_tweet_all[THEN conjunct2, THEN conjunct2]

lemma accounted_process_tweet: "accounted w st \<Longrightarrow> accounted w (process_tweet w tw st)"
  by (simp add: accounted_def process_tweet_effect classifies_def)

lemma accounted_for_tweets: "accounted w st \<Longrightarrow> accounted w (for_tweets w tws st)"
  by (induction tws arbitrary: st) (simp_all add: accounted_process_tweet)

lemma analyzed_for_tweets:
  "analyzed_tweets (for_tweets w tws st)
     = analyzed_tweets st + int (length (filter (classifies w) tws))"
  by (induction tws arbitrary: st) (simp_all add: process_tweet_effect)

lemma while_loop_preserves:
  assumes step: "\<And>tw st. P st \<Longrightarrow> P (process_tweet w tw st)"
  shows "while_loop fuel w hashtag n lw st tr = Some (Inr st', tr') \<Longrightarrow> P st \<Longrightarrow> P st'"
proof (induction fuel arbitrary: st tr)
  case 0
  then show ?case by (simp split: if_splits)
next
  case (Suc fuel)
  have page: "P (for_tweets w tws s)" if "P s" for tws s
    using that by (induction tws arbitrary: s) (simp_all add: step)
  show ?case
  proof (cases "analyzed_tweets st < n")
    case False
    with Suc.prems show ?thesis by simp
  next
    case True
    let ?c = "nat (count_per_request n (analyzed_tweets st) lw)"
    obtain tws raised where it: "items (search w (length tr) hashtag ?c) ?c = (tws, raised)"
      by (cases "items (search w (length tr) hashtag ?c) ?c")
    with True Suc.prems(1) have nr: "\<not> raised" by (auto simp: Let_def split: if_splits)
    with True it Suc.prems(1)
    have "while_loop fuel w hashtag n lw (for_tweets w tws st) (tr @ [Searched hashtag ?c])
            = Some (Inr st', tr')"
      by (simp add: Let_def)
    from Suc.IH[OF this page[OF Suc.prems(2)]] show ?thesis .
  qed
qed

lemma tidy_process_tweet: "tidy st \<Longrightarrow> tidy (process_tweet w tw st)"
  using clean_tweet_no_terminators[of "unicode_word w" "text_of tw"]
  by (auto simp: tidy_def process_tweet_effect)

lemma tidy_initial: "tidy initial_state"
  by (simp add: tidy_def initial_state_def)

lemma accounted_initial: "accounted w initial_state"
  by (simp add: accounted_def initial_state_def tally_sum_def)

subsection \<open>Claim C2: termination of the paging loop\<close>

lemma count_per_request_range:
  assumes "a < n"
  shows "0 < count_per_request n a (n mod 100) \<and> count_per_request n a (n mod 100) \<le> 100"
proof (cases "n - a = n mod 100")
  case True
  with assms have "0 < n mod 100" by linarith
  moreover have "n mod 100 < 100" by simp
  ultimately show ?thesis using True by (simp add: count_per_request_def)
next
  case False
  then show ?thesis by (simp add: count_per_request_def)
qed

lemma count_per_request_pos: "a < n \<Longrightarrow> 0 < count_per_request n a lw"
  by (auto simp: count_per_request_def)

lemma while_loop_exit:
  "while_loop fuel w hashtag n lw st tr = Some (out, tr') \<Longrightarrow>
     (case out of Inl e \<Rightarrow> e = SearchError | Inr st' \<Rightarrow> n \<le> analyzed_tweets st')"
proof (induction fuel arbitrary: st tr)
  case 0
  then show ?case by (auto split: if_splits)
next
  case (Suc fuel)
  show ?case
  proof (cases "analyzed_tweets st < n")
    case False
    with Suc.prems show ?thesis by auto
  next
    case True
    let ?c = "nat (count_per_request n (analyzed_tweets st) lw)"
    obtain tws raised where it: "items (search w (length tr) hashtag ?c) ?c = (tws, raised)"
      by (cases "items (search w (length tr) hashtag ?c) ?c")
    show ?thesis
    proof (cases raised)
      case True
      with \<open>analyzed_tweets st < n\<close> it Suc.prems show ?thesis by (auto simp: Let_def)
    next
      case False
      with True it Suc.prems
      have "while_loop fuel w hashtag n lw (for_tweets w tws st) (tr @ [Searched hashtag ?c])
              = Some (out, tr')"
        by (simp add: Let_def)
      then show ?thesis by (rule Suc.IH)
    qed
  qed
qed

lemma while_loop_returns:
  assumes "productive w hashtag"
  shows "nat (n - analyzed_tweets st) \<le> fuel \<Longrightarrow>
     \<exists>out tr'. while_loop fuel w hashtag n lw st tr = Some (out, tr')
       \<and> (case out of Inl e \<Rightarrow> e = SearchError | Inr st' \<Rightarrow> n \<le> analyzed_tweets st')"
proof (induction fuel arbitrary: st tr)
  case 0
  then show ?case by simp
next
  case (Suc fuel)
  show ?case
  proof (cases "analyzed_tweets st < n")
    case False
    then show ?thesis by simp
  next
    case True
    let ?c = "nat (count_per_request n (analyzed_tweets st) lw)"
    have pos: "0 < ?c" using count_per_request_pos[OF True] by simp
    obtain tws raised where it: "items (search w (length tr) hashtag ?c) ?c = (tws, raised)"
      by (cases "items (search w (length tr) hashtag ?c) ?c")
    show ?thesis
    proof (cases raised)
      case True
      with \<open>analyzed_tweets st < n\<close> it show ?thesis by (simp add: Let_def)
    next
      case False
      with assms pos it obtain tw where "tw \<in> set tws" "classifies w tw"
        unfolding productive_def by (metis fst_conv snd_conv)
      then have "filter (classifies w) tws \<noteq> []" by (auto simp: filter_empty_conv)
      then have "1 \<le> int (length (filter (classifies w) tws))"
        by (cases "filter (classifies w) tws") simp_all
      then have "nat (n - analyzed_tweets (for_tweets w tws st)) \<le> fuel"
        using Suc.prems True unfolding analyzed_for_tweets by linarith
      from Suc.IH[OF this] False True it show ?thesis by (simp add: Let_def)
    qed
  qed
qed

lemma dry_loop: "while_loop fuel (toy dry) hashtag 1 lw initial_state tr = None"
  by (induction fuel arbitrary: tr) (simp_all add: toy_def dry_def initial_state_def Let_def)

lemma ok_classifies: "classifies (toy src) (Tweet (str_of ''@you ok''))"
  by (simp add: classifies_def classified_def run_defs)

lemma productive_steady: "productive (toy steady) hashtag"
  unfolding productive_def
proof (intro allI impI)
  fix k c :: nat
  assume "0 < c"
  then have "Tweet (str_of ''@you ok'') \<in> set (fst (items (search (toy steady) k hashtag c) c))"
    by (simp add: toy_def steady_def)
  with ok_classifies show "snd (items (search (toy steady) k hashtag c) c)
        \<or> (\<exists>tw \<in> set (fst (items (search (toy steady) k hashtag c) c)).
              classifies (toy steady) tw)"
    by blast
qed

text \<open>
  Claim C2 says that the loop also stops when the source returns fewer items than
  were asked for. The only condition of the loop is
  \<^verbatim>\<open>analyzed_tweets < number_of_tweets\<close>; the number of items a page held is never
  looked at. With a source that has nothing for the hashtag and a target of 1, no
  amount of fuel makes the run return.
\<close>

theorem dry_source_never_returns:
  "\<not> (\<exists>fuel r. get_tweets_and_sentiment fuel (toy dry) [str_of ''#t''] 1 = Some r)"
proof -
  have "setup_twitter (toy dry) = Some API" by code_simp
  then show ?thesis by (simp add: get_tweets_and_sentiment_def dry_loop)
qed

text \<open>
  Claim C2 as amended: whenever the loop returns, \<open>analyzed_tweets\<close> has reached
  the target or the search has raised; a short page does not stop it, and no
  hashtag is finished with fewer tweets than the target. If every page that does
  not raise holds at least one tweet that goes through, the loop returns within as
  many rounds as tweets were missing.
\<close>

theorem loop_stops_at_target:
  "(while_loop fuel w hashtag n lw st tr = Some (out, tr') \<longrightarrow>
      (case out of Inl e \<Rightarrow> e = SearchError | Inr st' \<Rightarrow> n \<le> analyzed_tweets st'))
   \<and> (productive w hashtag \<and> nat (n - analyzed_tweets st) \<le> fuel \<longrightarrow>
        (\<exists>out tr'. while_loop fuel w hashtag n lw st tr = Some (out, tr')))"
proof (intro conjI impI)
  assume "while_loop fuel w hashtag n lw st tr = Some (out, tr')"
  then show "case out of Inl e \<Rightarrow> e = SearchError | Inr st' \<Rightarrow> n \<le> analyzed_tweets st'"
    by (rule while_loop_exit)
next
  assume "productive w hashtag \<and> nat (n - analyzed_tweets st) \<le> fuel"
  then show "\<exists>out tr'. while_loop fuel w hashtag n lw st tr = Some (out, tr')"
    using while_loop_returns[of w hashtag n st fuel lw tr] by blast
qed

theorem loop_stops_at_target_witness:
  "productive (toy steady) (str_of ''#t'')
   \<and> nat (3 - analyzed_tweets initial_state) \<le> 3
   \<and> (\<exists>out tr'. while_loop 3 (toy steady) (str_of ''#t'') 3 (3 mod 100) initial_state []
                   = Some (out, tr')
         \<and> (case out of Inl e \<Rightarrow> e = SearchError | Inr st' \<Rightarrow> 3 \<le> analyzed_tweets st'))"
proof -
  let ?h = "str_of ''#t''"
  have p: "productive (toy steady) ?h" by (rule productive_steady)
  have f: "nat (3 - analyzed_tweets initial_state) \<le> 3" by (simp add: initial_state_def)
  from loop_stops_at_target[THEN conjunct2, rule_format,
         of "toy steady" ?h 3 initial_state 3 "3 mod 100" "[]"] p f
  obtain out tr' where
    r: "while_loop 3 (toy steady) ?h 3 (3 mod 100) initial_state [] = Some (out, tr')"
    by blast
  from loop_stops_at_target[THEN conjunct1, rule_format, OF r]
  have "case out of Inl e \<Rightarrow> e = SearchError | Inr st' \<Rightarrow> 3 \<le> analyzed_tweets st'" .
  with p f r show ?thesis by blast
qed

subsection \<open>Claim C3: a tweet whose classification raises\<close>

lemma splits_toy: "splits_at_terminators (toy src)"
  by (simp add: splits_at_terminators_def toy_def toy_sentences_def)

lemma scored_one:
  assumes "splits_at_terminators w" and "set t \<inter> terminators = {}"
  shows "scored w t = (if classified w t \<and> \<not> blank w t then 1 else 0)"
proof (cases "sentences w t")
  case None
  then show ?thesis by (simp add: scored_def classified_def blank_def)
next
  case (Some ss)
  with assms have "length ss \<le> 1" unfolding splits_at_terminators_def by blast
  then consider "ss = []" | s where "ss = [s]"
    by (cases ss) (auto simp: le_Suc_eq)
  then show ?thesis
  proof cases
    case 1
    with Some show ?thesis by (simp add: scored_def classified_def blank_def)
  next
    case 2
    with Some show ?thesis by (simp add: scored_def classified_def blank_def)
  qed
qed

lemma failing_scores_nothing:
  assumes "splits_at_terminators w" and "set t \<inter> terminators = {}"
    and "sentences w t = Some ss" and "\<not> list_all (\<lambda>s. polarity w s \<noteq> None) ss"
  shows "\<exists>s. ss = [s] \<and> polarity w s = None"
proof -
  from assms have "length ss \<le> 1" unfolding splits_at_terminators_def by blast
  with assms(4) show ?thesis by (cases ss) auto
qed

lemma process_tweet_failing:
  assumes "splits_at_terminators w" and "\<not> classifies w tw"
  shows "process_tweet w tw st
           = st\<lparr>texts := texts st @ [clean_tweet (unicode_word w) (text_of tw)]\<rparr>"
proof -
  let ?t = "clean_tweet (unicode_word w) (text_of tw)"
  show ?thesis
  proof (cases "sentences w ?t")
    case None
    then show ?thesis by (simp add: process_tweet_def)
  next
    case (Some ss)
    with assms(2) have "\<not> list_all (\<lambda>s. polarity w s \<noteq> None) ss"
      by (simp add: classifies_def classified_def)
    from failing_scores_nothing[OF assms(1) clean_tweet_no_terminators Some this]
    obtain s where "ss = [s]" "polarity w s = None" by blast
    with Some show ?thesis by (simp add: process_tweet_def)
  qed
qed

lemma score_sentences_counters:
  "counters a = counters b \<Longrightarrow>
     counters (fst (score_sentences pol ss a)) = counters (fst (score_sentences pol ss b))
     \<and> snd (score_sentences pol ss a) = snd (score_sentences pol ss b)"
proof (induction ss arbitrary: a b)
  case Nil
  then show ?case by simp
next
  case (Cons s ss)
  show ?case
  proof (cases "pol s")
    case None
    with Cons.prems show ?thesis by simp
  next
    case (Some p)
    let ?f = "\<lambda>st. if p > 0 then st\<lparr>positive_tweets := positive_tweets st + 1\<rparr>
             else if p < 0 then st\<lparr>negative_tweets := negative_tweets st + 1\<rparr>
             else st\<lparr>neutral_tweets := neutral_tweets st + 1\<rparr>"
    from Cons.prems have "counters (?f a) = counters (?f b)" by (simp add: counters_def)
    from Cons.IH[OF this] Some show ?thesis by simp
  qed
qed

lemma process_tweet_counters:
  assumes "counters a = counters b"
  shows "counters (process_tweet w tw a) = counters (process_tweet w tw b)"
proof -
  let ?t = "clean_tweet (unicode_word w) (text_of tw)"
  let ?a = "a\<lparr>texts := texts a @ [?t]\<rparr>"
  let ?b = "b\<lparr>texts := texts b @ [?t]\<rparr>"
  from assms have ab: "counters ?a = counters ?b" by (simp add: counters_def)
  show ?thesis
  proof (cases "sentences w ?t")
    case None
    with ab show ?thesis by (simp add: process_tweet_def)
  next
    case (Some ss)
    obtain a2 oka where sa: "score_sentences (polarity w) ss ?a = (a2, oka)"
      by (cases "score_sentences (polarity w) ss ?a")
    obtain b2 okb where sb: "score_sentences (polarity w) ss ?b = (b2, okb)"
      by (cases "score_sentences (polarity w) ss ?b")
    from score_sentences_counters[OF ab, of "polarity w" ss] sa sb
    have "counters a2 = counters b2" "oka = okb" by simp_all
    with Some sa sb show ?thesis
      by (cases okb) (simp_all add: process_tweet_def counters_def)
  qed
qed

lemma for_tweets_counters:
  "counters a = counters b \<Longrightarrow> counters (for_tweets w tws a) = counters (for_tweets w tws b)"
proof (induction tws arbitrary: a b)
  case Nil
  then show ?case by simp
next
  case (Cons tw tws)
  from Cons.prems have "counters (process_tweet w tw a) = counters (process_tweet w tw b)"
    by (rule process_tweet_counters)
  then have "counters (for_tweets w tws (process_tweet w tw a))
               = counters (for_tweets w tws (process_tweet w tw b))"
    by (rule Cons.IH)
  then show ?case by simp
qed

lemma for_tweets_successful:
  assumes "splits_at_terminators w"
  shows "counters (for_tweets w tws st) = counters (for_tweets w (filter (classifies w) tws) st)"
proof (induction tws arbitrary: st)
  case Nil
  then show ?case by simp
next
  case (Cons tw tws)
  show ?case
  proof (cases "classifies w tw")
    case True
    with Cons.IH show ?thesis by simp
  next
    case False
    have "counters (process_tweet w tw st) = counters st"
      unfolding process_tweet_failing[OF assms False] by (simp add: counters_def)
    then have "counters (for_tweets w tws (process_tweet w tw st))
                 = counters (for_tweets w tws st)"
      by (rule for_tweets_counters)
    with False Cons.IH show ?thesis by simp
  qed
qed

text \<open>
  Claim C3: a tweet for which segmentation or scoring raises adds nothing to the
  tally, and the analysis goes on with the next tweet. The cleaned text has no
  sentence terminator, so it has at most one sentence: a raise comes before any
  counter is incremented. The state after such a tweet is the state before it with
  the cleaned text appended to \<open>texts\<close>, and the counters after a page are those
  after the tweets of the page that go through.
\<close>

theorem failed_tweet_adds_nothing:
  assumes "splits_at_terminators w"
  shows "(\<not> classifies w tw \<longrightarrow>
            process_tweet w tw st
              = st\<lparr>texts := texts st @ [clean_tweet (unicode_word w) (text_of tw)]\<rparr>)
       \<and> counters (for_tweets w tws st)
           = counters (for_tweets w (filter (classifies w) tws) st)"
proof (intro conjI impI)
  assume "\<not> classifies w tw"
  with assms show "process_tweet w tw st
      = st\<lparr>texts := texts st @ [clean_tweet (unicode_word w) (text_of tw)]\<rparr>"
    by (rule process_tweet_failing)
next
  from assms show "counters (for_tweets w tws st)
      = counters (for_tweets w (filter (classifies w) tws) st)"
    by (rule for_tweets_successful)
qed

theorem failed_tweet_adds_nothing_witness:
  "splits_at_terminators (toy dry)
   \<and> \<not> classifies (toy dry) (Tweet (str_of ''x''))
   \<and> process_tweet (toy dry) (Tweet (str_of ''x'')) initial_state
       = initial_state\<lparr>texts := texts initial_state
           @ [clean_tweet (unicode_word (toy dry)) (text_of (Tweet (str_of ''x'')))]\<rparr>
   \<and> counters (for_tweets (toy dry)
         [Tweet (str_of ''p''), Tweet (str_of ''x''), Tweet (str_of ''S''), Tweet (str_of ''n'')]
         initial_state)
       = counters (for_tweets (toy dry) [Tweet (str_of ''p''), Tweet (str_of ''n'')]
           initial_state)
   \<and> counters (for_tweets (toy dry) [Tweet (str_of ''p''), Tweet (str_of ''n'')]
         initial_state) = (1, 1, 0, 2)"
proof -
  let ?page = "[Tweet (str_of ''p''), Tweet (str_of ''x''), Tweet (str_of ''S''),
                Tweet (str_of ''n'')]"
  have s: "splits_at_terminators (toy dry)" by (rule splits_toy)
  have c: "\<not> classifies (toy dry) (Tweet (str_of ''x''))" by code_simp
  have f: "filter (classifies (toy dry)) ?page = [Tweet (str_of ''p''), Tweet (str_of ''n'')]"
    by code_simp
  have v: "counters (for_tweets (toy dry) [Tweet (str_of ''p''), Tweet (str_of ''n'')]
         initial_state) = (1, 1, 0, 2)"
    by code_simp
  from failed_tweet_adds_nothing[OF s, of "Tweet (str_of ''x'')" initial_state ?page]
    s c f v
  show ?thesis by simp
qed

subsection \<open>Claim C6: the sign of the polarity decides the label\<close>

text \<open>
  Claim C6: a sentence counts as positive when its polarity is above 0, as negative
  when it is below 0 and as neutral when it is exactly 0. For a tweet of one
  sentence the matching counter goes up by 1 and the two others stay; with polarity
  0 that counter is \<open>neutral_tweets\<close>.
\<close>

theorem sign_decides_label:
  assumes "sentences w (clean_tweet (unicode_word w) (text_of tw)) = Some [s]"
    and "polarity w s = Some p"
  shows "positive_tweets (process_tweet w tw st)
           = positive_tweets st + (if p > 0 then 1 else 0)
       \<and> negative_tweets (process_tweet w tw st)
           = negative_tweets st + (if p < 0 then 1 else 0)
       \<and> neutral_tweets (process_tweet w tw st)
           = neutral_tweets st + (if p = 0 then 1 else 0)
       \<and> analyzed_tweets (process_tweet w tw st) = analyzed_tweets st + 1"
  using assms by (simp add: process_tweet_def Let_def)

theorem sign_decides_label_witness:
  "sentences (toy dry) (clean_tweet (unicode_word (toy dry)) (text_of (Tweet (str_of ''z''))))
     = Some [str_of ''z'']
   \<and> polarity (toy dry) (str_of ''z'') = Some 0
   \<and> positive_tweets (process_tweet (toy dry) (Tweet (str_of ''z'')) initial_state) = 0
   \<and> negative_tweets (process_tweet (toy dry) (Tweet (str_of ''z'')) initial_state) = 0
   \<and> neutral_tweets (process_tweet (toy dry) (Tweet (str_of ''z'')) initial_state) = 1"
proof -
  have s: "sentences (toy dry) (clean_tweet (unicode_word (toy dry))
             (text_of (Tweet (str_of ''z'')))) = Some [str_of ''z'']"
    by code_simp
  have p: "polarity (toy dry) (str_of ''z'') = Some 0" by code_simp
  from sign_decides_label[OF s p, of initial_state] s p show ?thesis
    by (simp add: initial_state_def)
qed

section \<open>Properties of the whole run\<close>

subsection \<open>Claim C7: no session\<close>

text \<open>
  Claim C7: when \<open>setup_twitter\<close> yields no session, the run ends at once. It
  returns the message \<^verbatim>\<open>Twitter setup failed! Please check your credentials!\<close>
  in place of results, whatever the fuel, the hashtags and the target: no search is
  made and no word cloud is written.
\<close>

theorem setup_failure_returns_message:
  assumes "setup_twitter w = None"
  shows "get_tweets_and_sentiment fuel w hashtags n
           = Some (Inr (Message (str_of ''Twitter setup failed! Please check your credentials!'')), [])"
  using assms by (simp add: get_tweets_and_sentiment_def)

theorem setup_failure_witness:
  "setup_twitter (toy_locked steady) = None
   \<and> get_tweets_and_sentiment 0 (toy_locked steady) [str_of ''#a'', str_of ''#b''] 3
       = Some (Inr (Message (str_of ''Twitter setup failed! Please check your credentials!'')), [])"
proof -
  have h: "setup_twitter (toy_locked steady) = None" by code_simp
  from setup_failure_returns_message[OF h] h show ?thesis by simp
qed

subsection \<open>Claim C8: the sizes of the pages\<close>

lemma while_loop_requests:
  "while_loop fuel w hashtag n (n mod 100) st tr = Some (out, tr') \<Longrightarrow>
     \<exists>cs. tr' = tr @ map (Searched hashtag) cs
       \<and> (\<forall>c \<in> set cs. (c = 100 \<or> c = nat (n mod 100)) \<and> 0 < c \<and> c \<le> 100)"
proof (induction fuel arbitrary: st tr)
  case 0
  then show ?case by (simp split: if_splits)
next
  case (Suc fuel)
  show ?case
  proof (cases "analyzed_tweets st < n")
    case False
    with Suc.prems show ?thesis by simp
  next
    case True
    let ?c = "nat (count_per_request n (analyzed_tweets st) (n mod 100))"
    have c: "(?c = 100 \<or> ?c = nat (n mod 100)) \<and> 0 < ?c \<and> ?c \<le> 100"
      using count_per_request_range[OF True] by (auto simp: count_per_request_def)
    obtain tws raised where it: "items (search w (length tr) hashtag ?c) ?c = (tws, raised)"
      by (cases "items (search w (length tr) hashtag ?c) ?c")
    show ?thesis
    proof (cases raised)
      case True
      with \<open>analyzed_tweets st < n\<close> it Suc.prems
      have "tr' = tr @ map (Searched hashtag) [?c]" by (simp add: Let_def)
      with c show ?thesis by (intro exI[of _ "[?c]"]) simp
    next
      case False
      with True it Suc.prems
      have "while_loop fuel w hashtag n (n mod 100) (for_tweets w tws st)
              (tr @ [Searched hashtag ?c]) = Some (out, tr')"
        by (simp add: Let_def)
      from Suc.IH[OF this] obtain cs where
        cs: "tr' = (tr @ [Searched hashtag ?c]) @ map (Searched hashtag) cs"
            "\<forall>c \<in> set cs. (c = 100 \<or> c = nat (n mod 100)) \<and> 0 < c \<and> c \<le> 100"
        by blast
      then have "tr' = tr @ map (Searched hashtag) (?c # cs)" by simp
      with c cs(2) show ?thesis by (intro exI[of _ "?c # cs"]) simp
    qed
  qed
qed

lemma windows_step: "100 \<le> r \<Longrightarrow> windows r = 100 # windows (r - 100)"
proof -
  assume r: "100 \<le> r"
  have d: "r div 100 = (r - 100) div 100 + 1"
    using div_add_self2[of 100 "r - 100"] by simp
  have m: "r mod 100 = (r - 100) mod 100" by simp
  have "0 \<le> (r - 100) div 100" using r by simp
  then have "nat (r div 100) = Suc (nat ((r - 100) div 100))" using d by simp
  with m show ?thesis by (simp add: windows_def)
qed

lemma ceil_step: "100 \<le> x \<Longrightarrow> nat ((x + 99) div 100) = Suc (nat ((x - 100 + 99) div (100::int)))"
proof -
  assume x: "100 \<le> x"
  have "(x + 99) div 100 = (x - 100 + 99) div 100 + 1"
    using div_add_self2[of 100 "x - 100 + 99"] by simp
  moreover have "0 \<le> (x - 100 + 99) div 100" using x by simp
  ultimately show ?thesis by simp
qed

lemma windows_last: "0 < r \<Longrightarrow> r < 100 \<Longrightarrow> windows r = [nat r]"
  by (simp add: windows_def)

lemma faultless_page:
  assumes "faultless w hashtag"
  obtains tws where "items (search w k hashtag c) c = (tws, False)"
    "length (filter (classifies w) tws) = c"
proof -
  from assms obtain ts where ts: "search w k hashtag c = Items ts" "c \<le> length ts"
    "\<forall>tw \<in> set (take c ts). classifies w tw"
    unfolding faultless_def by blast
  then have "filter (classifies w) (take c ts) = take c ts" by (simp add: filter_id_conv)
  with ts have "length (filter (classifies w) (take c ts)) = c" by simp
  with ts that show thesis by simp
qed

lemma while_loop_windows:
  assumes "faultless w hashtag"
  shows "analyzed_tweets st \<le> n \<Longrightarrow> (n - analyzed_tweets st) mod 100 = n mod 100
     \<Longrightarrow> nat ((n - analyzed_tweets st + 99) div 100) \<le> fuel
     \<Longrightarrow> \<exists>st'. while_loop fuel w hashtag n (n mod 100) st tr
             = Some (Inr st', tr @ map (Searched hashtag) (windows (n - analyzed_tweets st)))
           \<and> analyzed_tweets st' = n"
proof (induction fuel arbitrary: st tr)
  case 0
  then have "n - analyzed_tweets st + 99 < 100" by simp
  with 0 have "analyzed_tweets st = n" by simp
  then show ?case by (simp add: windows_def)
next
  case (Suc fuel)
  let ?a = "analyzed_tweets st"
  show ?case
  proof (cases "?a < n")
    case False
    with Suc.prems have "?a = n" by simp
    then show ?thesis by (simp add: windows_def)
  next
    case True
    let ?c = "nat (count_per_request n ?a (n mod 100))"
    obtain tws where it: "items (search w (length tr) hashtag ?c) ?c = (tws, False)"
      and len: "length (filter (classifies w) tws) = ?c"
      using faultless_page[OF assms] by blast
    let ?st1 = "for_tweets w tws st"
    have a1: "analyzed_tweets ?st1 = ?a + int ?c" by (simp add: analyzed_for_tweets len)
    have step: "while_loop (Suc fuel) w hashtag n (n mod 100) st tr
        = while_loop fuel w hashtag n (n mod 100) ?st1 (tr @ [Searched hashtag ?c])"
      using True it by (simp add: Let_def)
    show ?thesis
    proof (cases "n - ?a = n mod 100")
      case last: True
      then have c: "?c = nat (n - ?a)" by (simp add: count_per_request_def)
      with a1 True have fin: "analyzed_tweets ?st1 = n" by simp
      have "n - ?a < 100" using last by simp
      with True have "windows (n - ?a) = [?c]"
        using windows_last[of "n - ?a"] c by simp
      with step fin show ?thesis by (cases fuel) simp_all
    next
      case more: False
      then have c: "?c = 100" by (simp add: count_per_request_def)
      have big: "100 \<le> n - ?a"
      proof (rule ccontr)
        assume "\<not> 100 \<le> n - ?a"
        with True have "(n - ?a) mod 100 = n - ?a" by simp
        with Suc.prems(2) more show False by simp
      qed
      have r1: "n - analyzed_tweets ?st1 = n - ?a - 100" using a1 c by simp
      have p1: "analyzed_tweets ?st1 \<le> n" using a1 c big by simp
      have p2: "(n - analyzed_tweets ?st1) mod 100 = n mod 100"
        unfolding r1 using Suc.prems(2) by simp
      have p3: "nat ((n - analyzed_tweets ?st1 + 99) div 100) \<le> fuel"
        unfolding r1 using Suc.prems(3) big ceil_step[of "n - ?a"] by simp
      from Suc.IH[OF p1 p2 p3, of "tr @ [Searched hashtag ?c]"] obtain st' where
        st': "while_loop fuel w hashtag n (n mod 100) ?st1 (tr @ [Searched hashtag ?c])
                = Some (Inr st', (tr @ [Searched hashtag ?c])
                     @ map (Searched hashtag) (windows (n - analyzed_tweets ?st1)))"
          "analyzed_tweets st' = n"
        by blast
      have "(tr @ [Searched hashtag ?c])
              @ map (Searched hashtag) (windows (n - analyzed_tweets ?st1))
            = tr @ map (Searched hashtag) (windows (n - ?a))"
        unfolding r1 windows_step[OF big] c by simp
      with st' step show ?thesis by simp
    qed
  qed
qed

lemma faultless_steady: "faultless (toy steady) hashtag"
  unfolding faultless_def
proof (intro allI)
  fix k c :: nat
  show "\<exists>tws. search (toy steady) k hashtag c = Items tws \<and> c \<le> length tws
        \<and> (\<forall>tw \<in> set (take c tws). classifies (toy steady) tw)"
    using ok_classifies[of steady]
    by (intro exI[of _ "replicate c (Tweet (str_of ''@you ok''))"])
       (simp add: toy_def steady_def)
qed

text \<open>
  Claim C8 says that, whatever tweets fail, every page has size 100 but the last
  one, which has size \<^verbatim>\<open>target % 100\<close>. The remainder is asked for exactly when
  the number of missing tweets equals it. With a target of 2 and a first page in
  which one of two tweets fails, one tweet is missing, so the second and last page
  has size 100, behind a first page of size 2.
\<close>

theorem remainder_page_not_last:
  "while_loop 2 (toy one_fails) (str_of ''#t'') 2 (2 mod 100) initial_state []
     = Some (Inr one_fails_final, map (Searched (str_of ''#t'')) [2, 100])
   \<and> [2, 100] \<noteq> windows 2"
  by code_simp

text \<open>
  Claim C8 as amended: every page asked for has size 100 or \<^verbatim>\<open>target % 100\<close>, and
  between 1 and 100. When every page is full and all its tweets go through, the
  pages are \<^verbatim>\<open>target // 100\<close> pages of 100 followed by one of \<^verbatim>\<open>target % 100\<close> if
  that is not 0, and \<open>analyzed_tweets\<close> ends at the target.
\<close>

theorem page_sizes:
  "(while_loop fuel w hashtag n (n mod 100) st tr = Some (out, tr') \<longrightarrow>
      (\<exists>cs. tr' = tr @ map (Searched hashtag) cs
         \<and> (\<forall>c \<in> set cs. (c = 100 \<or> c = nat (n mod 100)) \<and> 0 < c \<and> c \<le> 100)))
   \<and> (faultless w hashtag \<and> 0 \<le> n \<and> nat ((n + 99) div 100) \<le> fuel \<longrightarrow>
        (\<exists>st'. while_loop fuel w hashtag n (n mod 100) initial_state tr
                  = Some (Inr st', tr @ map (Searched hashtag) (windows n))
              \<and> analyzed_tweets st' = n))"
proof (intro conjI impI)
  assume "while_loop fuel w hashtag n (n mod 100) st tr = Some (out, tr')"
  then show "\<exists>cs. tr' = tr @ map (Searched hashtag) cs
         \<and> (\<forall>c \<in> set cs. (c = 100 \<or> c = nat (n mod 100)) \<and> 0 < c \<and> c \<le> 100)"
    by (rule while_loop_requests)
next
  assume a: "faultless w hashtag \<and> 0 \<le> n \<and> nat ((n + 99) div 100) \<le> fuel"
  have z: "analyzed_tweets initial_state = 0" by (simp add: initial_state_def)
  from a have f: "faultless w hashtag" by simp
  from a have 1: "analyzed_tweets initial_state \<le> n" unfolding z by simp
  have 2: "(n - analyzed_tweets initial_state) mod 100 = n mod 100" unfolding z by simp
  from a have 3: "nat ((n - analyzed_tweets initial_state + 99) div 100) \<le> fuel"
    unfolding z by simp
  from while_loop_windows[OF f 1 2 3, where tr = tr]
  show "\<exists>st'. while_loop fuel w hashtag n (n mod 100) initial_state tr
                  = Some (Inr st', tr @ map (Searched hashtag) (windows n))
              \<and> analyzed_tweets st' = n"
    unfolding z by simp
qed

theorem page_sizes_witness:
  "faultless (toy steady) (str_of ''#t'')
   \<and> (0::int) \<le> 205 \<and> nat ((205 + 99) div 100) \<le> 3
   \<and> windows 205 = [100, 100, 5]
   \<and> (\<exists>st'. while_loop 3 (toy steady) (str_of ''#t'') 205 (205 mod 100) initial_state []
               = Some (Inr st', [] @ map (Searched (str_of ''#t'')) (windows 205))
         \<and> analyzed_tweets st' = 205
         \<and> (\<exists>cs. [] @ map (Searched (str_of ''#t'')) (windows 205)
                    = [] @ map (Searched (str_of ''#t'')) cs
               \<and> (\<forall>c \<in> set cs. (c = 100 \<or> c = nat (205 mod 100)) \<and> 0 < c \<and> c \<le> 100)))"
proof -
  let ?h = "str_of ''#t''"
  have f: "faultless (toy steady) ?h" by (rule faultless_steady)
  have b: "(0::int) \<le> 205 \<and> nat ((205 + 99) div 100) \<le> 3" by simp
  have w: "windows 205 = [100, 100, 5]" by code_simp
  from page_sizes[THEN conjunct2, rule_format, of "toy steady" ?h 205 3 "[]"] f b
  obtain st' where
    r: "while_loop 3 (toy steady) ?h 205 (205 mod 100) initial_state []
          = Some (Inr st', [] @ map (Searched ?h) (windows 205))"
    and a: "analyzed_tweets st' = 205"
    by blast
  from page_sizes[THEN conjunct1, rule_format, OF r]
  have "\<exists>cs. [] @ map (Searched ?h) (windows 205) = [] @ map (Searched ?h) cs
          \<and> (\<forall>c \<in> set cs. (c = 100 \<or> c = nat (205 mod 100)) \<and> 0 < c \<and> c \<le> 100)" .
  with f b w r a show ?thesis by blast
qed

subsection \<open>Claim C1: the tally at the end of a hashtag\<close>

lemma sum_scored:
  assumes "splits_at_terminators w"
  shows "\<forall>t \<in> set ts. set t \<inter> terminators = {} \<Longrightarrow>
     (\<Sum>t\<leftarrow>ts. int (scored w t))
       = int (length (filter (\<lambda>t. classified w t \<and> \<not> blank w t) ts))"
proof (induction ts)
  case Nil
  then show ?case by simp
next
  case (Cons t ts)
  then have "set t \<inter> terminators = {}" by simp
  from scored_one[OF assms this] Cons show ?case by simp
qed

lemma length_filter_conj: "length (filter (\<lambda>t. P t \<and> Q t) ts) \<le> length (filter P ts)"
  by (induction ts) auto

lemma while_loop_faultless_exact:
  assumes "faultless w hashtag"
  shows "analyzed_tweets st \<le> n \<Longrightarrow> (n - analyzed_tweets st) mod 100 = n mod 100
     \<Longrightarrow> while_loop fuel w hashtag n (n mod 100) st tr = Some (Inr st', tr')
     \<Longrightarrow> analyzed_tweets st' = n"
proof (induction fuel arbitrary: st tr)
  case 0
  then show ?case by (simp split: if_splits)
next
  case (Suc fuel)
  let ?a = "analyzed_tweets st"
  show ?case
  proof (cases "?a < n")
    case False
    with Suc.prems show ?thesis by simp
  next
    case True
    let ?c = "nat (count_per_request n ?a (n mod 100))"
    obtain tws where it: "items (search w (length tr) hashtag ?c) ?c = (tws, False)"
      and len: "length (filter (classifies w) tws) = ?c"
      using faultless_page[OF assms] by blast
    let ?st1 = "for_tweets w tws st"
    have a1: "analyzed_tweets ?st1 = ?a + int ?c" by (simp add: analyzed_for_tweets len)
    have step: "while_loop fuel w hashtag n (n mod 100) ?st1 (tr @ [Searched hashtag ?c])
                  = Some (Inr st', tr')"
      using True it Suc.prems(3) by (simp add: Let_def)
    show ?thesis
    proof (cases "n - ?a = n mod 100")
      case last: True
      then have c: "?c = nat (n - ?a)" by (simp add: count_per_request_def)
      with a1 True have fin: "analyzed_tweets ?st1 = n" by simp
      with step show ?thesis by (cases fuel) simp_all
    next
      case more: False
      then have c: "?c = 100" by (simp add: count_per_request_def)
      have big: "100 \<le> n - ?a"
      proof (rule ccontr)
        assume "\<not> 100 \<le> n - ?a"
        with True have "(n - ?a) mod 100 = n - ?a" by simp
        with Suc.prems(2) more show False by simp
      qed
      have r1: "n - analyzed_tweets ?st1 = n - ?a - 100" using a1 c by simp
      have p1: "analyzed_tweets ?st1 \<le> n" using a1 c big by simp
      have p2: "(n - analyzed_tweets ?st1) mod 100 = n mod 100"
        unfolding r1 using Suc.prems(2) by simp
      from Suc.IH[OF p1 p2 step] show ?thesis .
    qed
  qed
qed

text \<open>
  Claim C1 says that the tally of a hashtag (positive + negative + neutral) is at
  most the target and equals the number of successfully classified items. In the
  run below the target is 2. The first page, asked with size 2, holds one tweet,
  which is blank once cleaned: it is analyzed and adds nothing to the tally. One
  tweet is then missing, which is not the remainder, so the next page is asked with
  size 100; it holds three tweets, and all three are taken. The run ends with a
  tally of 3 for 4 analyzed tweets.
\<close>

theorem tally_overshoots_target:
  "splits_at_terminators (toy blank_then_three)
   \<and> while_loop 2 (toy blank_then_three) (str_of ''#t'') 2 (2 mod 100) initial_state []
       = Some (Inr blank_then_three_final,
           [Searched (str_of ''#t'') 2, Searched (str_of ''#t'') 100])
   \<and> \<not> tally_sum blank_then_three_final \<le> 2
   \<and> tally_sum blank_then_three_final \<noteq> analyzed_tweets blank_then_three_final"
proof -
  have "while_loop 2 (toy blank_then_three) (str_of ''#t'') 2 (2 mod 100) initial_state []
       = Some (Inr blank_then_three_final,
           [Searched (str_of ''#t'') 2, Searched (str_of ''#t'') 100])
   \<and> \<not> tally_sum blank_then_three_final \<le> 2
   \<and> tally_sum blank_then_three_final \<noteq> analyzed_tweets blank_then_three_final"
    by code_simp
  with splits_toy[of blank_then_three] show ?thesis by blast
qed

text \<open>
  Claim C1 as amended: when the analysis of a hashtag ends, the tally equals the
  number of successfully classified tweets whose cleaned text has a sentence, so it
  is at most the number of successfully classified tweets, \<open>analyzed_tweets\<close>;
  and \<open>analyzed_tweets\<close> is at least the target. When every page is full and
  all its tweets go through, \<open>analyzed_tweets\<close> equals the target and the tally
  is at most the target.
\<close>

theorem tally_within_classified:
  assumes "splits_at_terminators w"
    and "while_loop fuel w hashtag n (n mod 100) initial_state tr = Some (Inr st, tr')"
  shows "tally_sum st
           = int (length (filter (\<lambda>t. classified w t \<and> \<not> blank w t) (texts st)))
       \<and> analyzed_tweets st = int (length (filter (classified w) (texts st)))
       \<and> tally_sum st \<le> analyzed_tweets st
       \<and> n \<le> analyzed_tweets st
       \<and> (faultless w hashtag \<and> 0 \<le> n \<longrightarrow> analyzed_tweets st = n \<and> tally_sum st \<le> n)"
proof -
  have acc: "accounted w st"
    using while_loop_preserves[where P = "accounted w", OF accounted_process_tweet assms(2)
            accounted_initial] .
  have td: "tidy st"
    using while_loop_preserves[where P = tidy, OF tidy_process_tweet assms(2) tidy_initial] .
  from td have "\<forall>t \<in> set (texts st). set t \<inter> terminators = {}" by (simp add: tidy_def)
  from sum_scored[OF assms(1) this] acc have
    t: "tally_sum st
          = int (length (filter (\<lambda>t. classified w t \<and> \<not> blank w t) (texts st)))"
    by (simp add: accounted_def)
  from acc have a: "analyzed_tweets st = int (length (filter (classified w) (texts st)))"
    by (simp add: accounted_def)
  from t a have le: "tally_sum st \<le> analyzed_tweets st"
    using length_filter_conj[of "classified w" "\<lambda>t. \<not> blank w t" "texts st"] by simp
  from while_loop_exit[OF assms(2)] have n: "n \<le> analyzed_tweets st" by simp
  have z: "analyzed_tweets initial_state = 0" by (simp add: initial_state_def)
  have ex: "analyzed_tweets st = n" if f: "faultless w hashtag" and "0 \<le> n"
  proof -
    from that have 1: "analyzed_tweets initial_state \<le> n" unfolding z by simp
    have 2: "(n - analyzed_tweets initial_state) mod 100 = n mod 100" unfolding z by simp
    from while_loop_faultless_exact[OF f 1 2 assms(2)] show ?thesis .
  qed
  from t a le n ex show ?thesis by auto
qed

theorem tally_within_classified_witness:
  "splits_at_terminators (toy steady)
   \<and> while_loop 1 (toy steady) (str_of ''#t'') 3 (3 mod 100) initial_state []
       = Some (Inr steady_final, [Searched (str_of ''#t'') 3])
   \<and> faultless (toy steady) (str_of ''#t'') \<and> (0::int) \<le> 3
   \<and> tally_sum steady_final \<le> analyzed_tweets steady_final
   \<and> 3 \<le> analyzed_tweets steady_final
   \<and> analyzed_tweets steady_final = 3
   \<and> tally_sum steady_final \<le> 3"
proof -
  have s: "splits_at_terminators (toy steady)" by (rule splits_toy)
  have h: "while_loop 1 (toy steady) (str_of ''#t'') 3 (3 mod 100) initial_state []
       = Some (Inr steady_final, [Searched (str_of ''#t'') 3])"
    by code_simp
  have f: "faultless (toy steady) (str_of ''#t'')" by (rule faultless_steady)
  from tally_within_classified[OF s h] s h f show ?thesis by simp
qed

subsection \<open>Claim C9: the results follow the order of the hashtags\<close>

lemma for_hashtags_append:
  "for_hashtags fuel w n (hs1 @ hs2) res tr =
     (case for_hashtags fuel w n hs1 res tr of
        None \<Rightarrow> None
      | Some (Inl e, tr1) \<Rightarrow> Some (Inl e, tr1)
      | Some (Inr res1, tr1) \<Rightarrow> for_hashtags fuel w n hs2 res1 tr1)"
  by (induction hs1 arbitrary: res tr)
     (auto simp: Let_def split: option.splits sum.splits prod.splits)

lemma for_hashtags_extends:
  "for_hashtags fuel w n hs res tr = Some (Inr res', tr') \<Longrightarrow>
     \<exists>ps ns us. length ps = length hs \<and> length ns = length hs \<and> length us = length hs
       \<and> positive res' = positive res @ ps
       \<and> negative res' = negative res @ ns
       \<and> neutral res' = neutral res @ us"
proof (induction hs arbitrary: res tr)
  case Nil
  then show ?case by simp
next
  case (Cons h hs)
  from Cons.prems obtain st tr1 where
    wl: "while_loop fuel w h n (n mod 100) initial_state tr = Some (Inr st, tr1)"
    and rest: "for_hashtags fuel w n hs (append_results res st)
                 (tr1 @ [WordCloudSaved h (join (str_of '' '') (texts st))])
               = Some (Inr res', tr')"
    by (auto simp: Let_def split: option.splits sum.splits prod.splits if_splits)
  from Cons.IH[OF rest] obtain ps ns us where
    "length ps = length hs" "length ns = length hs" "length us = length hs"
    "positive res' = positive (append_results res st) @ ps"
    "negative res' = negative (append_results res st) @ ns"
    "neutral res' = neutral (append_results res st) @ us"
    by blast
  then show ?case
    by (intro exI[of _ "positive_tweets st # ps"] exI[of _ "negative_tweets st # ns"]
              exI[of _ "neutral_tweets st # us"])
       (simp add: append_results_def)
qed

lemma for_hashtags_nth:
  assumes run: "for_hashtags fuel w n hashtags empty_results [] = Some (Inr res, tr)"
    and i: "i < length hashtags"
  shows "\<exists>res_i tr_i st tr_i'.
           for_hashtags fuel w n (take i hashtags) empty_results [] = Some (Inr res_i, tr_i)
         \<and> while_loop fuel w (hashtags ! i) n (n mod 100) initial_state tr_i
             = Some (Inr st, tr_i')
         \<and> positive res ! i = positive_tweets st
         \<and> negative res ! i = negative_tweets st
         \<and> neutral res ! i = neutral_tweets st"
proof -
  let ?rest = "drop (Suc i) hashtags"
  have split: "hashtags = take i hashtags @ (hashtags ! i # ?rest)"
    using i by (simp add: id_take_nth_drop)
  have "for_hashtags fuel w n (take i hashtags @ (hashtags ! i # ?rest)) empty_results []
          = Some (Inr res, tr)"
    using run split by simp
  then obtain res_i tr_i where
    before: "for_hashtags fuel w n (take i hashtags) empty_results [] = Some (Inr res_i, tr_i)"
    and after: "for_hashtags fuel w n (hashtags ! i # ?rest) res_i tr_i = Some (Inr res, tr)"
    unfolding for_hashtags_append
    by (auto split: option.splits sum.splits prod.splits)
  from after obtain st tr1 where
    wl: "while_loop fuel w (hashtags ! i) n (n mod 100) initial_state tr_i = Some (Inr st, tr1)"
    and rest: "for_hashtags fuel w n ?rest (append_results res_i st)
                 (tr1 @ [WordCloudSaved (hashtags ! i) (join (str_of '' '') (texts st))])
               = Some (Inr res, tr)"
    by (auto simp: Let_def split: option.splits sum.splits prod.splits if_splits)
  from for_hashtags_extends[OF before] i have
    len: "length (positive res_i) = i" "length (negative res_i) = i" "length (neutral res_i) = i"
    by (auto simp: empty_results_def)
  from for_hashtags_extends[OF rest] obtain ps ns us where
    "positive res = positive (append_results res_i st) @ ps"
    "negative res = negative (append_results res_i st) @ ns"
    "neutral res = neutral (append_results res_i st) @ us"
    by blast
  with len have "positive res ! i = positive_tweets st"
    "negative res ! i = negative_tweets st" "neutral res ! i = neutral_tweets st"
    by (simp_all add: append_results_def nth_append)
  with before wl show ?thesis by blast
qed

text \<open>
  Claim C9: when the run returns results, each of the three lists has one entry for
  each hashtag, and entry \<open>i\<close> of each list is the counter with which the analysis of
  hashtag \<open>i\<close> ended, that analysis being the one made after the hashtags before
  \<open>i\<close>.
\<close>

theorem results_follow_hashtags:
  assumes "get_tweets_and_sentiment fuel w hashtags n = Some (Inr (Results res), tr)"
  shows "length (positive res) = length hashtags
       \<and> length (negative res) = length hashtags
       \<and> length (neutral res) = length hashtags
       \<and> (\<forall>i < length hashtags. \<exists>res_i tr_i st tr_i'.
             for_hashtags fuel w n (take i hashtags) empty_results [] = Some (Inr res_i, tr_i)
           \<and> while_loop fuel w (hashtags ! i) n (n mod 100) initial_state tr_i
               = Some (Inr st, tr_i')
           \<and> positive res ! i = positive_tweets st
           \<and> negative res ! i = negative_tweets st
           \<and> neutral res ! i = neutral_tweets st)"
proof -
  from assms have run: "for_hashtags fuel w n hashtags empty_results [] = Some (Inr res, tr)"
    by (auto simp: get_tweets_and_sentiment_def split: option.splits sum.splits prod.splits)
  from for_hashtags_extends[OF run] have
    "length (positive res) = length hashtags" "length (negative res) = length hashtags"
    "length (neutral res) = length hashtags"
    by (auto simp: empty_results_def)
  with for_hashtags_nth[OF run] show ?thesis by blast
qed

theorem results_follow_hashtags_witness:
  "get_tweets_and_sentiment 2 (toy one_fails) [str_of ''#a'', str_of ''#b''] 2
     = Some (Inr (Results \<lparr>positive = [1, 0], negative = [1, 2], neutral = [0, 0]\<rparr>),
         [Searched (str_of ''#a'') 2, Searched (str_of ''#a'') 100,
          WordCloudSaved (str_of ''#a'') (str_of ''S p n''),
          Searched (str_of ''#b'') 2, Searched (str_of ''#b'') 100,
          WordCloudSaved (str_of ''#b'') (str_of ''n n'')])
   \<and> length [1, 0 :: int] = length [str_of ''#a'', str_of ''#b'']
   \<and> (\<exists>res_1 tr_1 st tr_1'.
         for_hashtags 2 (toy one_fails) 2 (take 1 [str_of ''#a'', str_of ''#b''])
           empty_results [] = Some (Inr res_1, tr_1)
       \<and> while_loop 2 (toy one_fails) (str_of ''#b'') 2 (2 mod 100) initial_state tr_1
           = Some (Inr st, tr_1')
       \<and> positive_tweets st = 0 \<and> negative_tweets st = 2 \<and> neutral_tweets st = 0)"
proof -
  let ?res = "\<lparr>positive = [1, 0], negative = [1, 2], neutral = [0, 0]\<rparr>"
  let ?tr = "[Searched (str_of ''#a'') 2, Searched (str_of ''#a'') 100,
          WordCloudSaved (str_of ''#a'') (str_of ''S p n''),
          Searched (str_of ''#b'') 2, Searched (str_of ''#b'') 100,
          WordCloudSaved (str_of ''#b'') (str_of ''n n'')]"
  have h: "get_tweets_and_sentiment 2 (toy one_fails) [str_of ''#a'', str_of ''#b''] 2
     = Some (Inr (Results ?res), ?tr)"
    by code_simp
  from results_follow_hashtags[OF h] have
    "\<forall>i < 2. \<exists>res_i tr_i st tr_i'.
       for_hashtags 2 (toy one_fails) 2 (take i [str_of ''#a'', str_of ''#b''])
         empty_results [] = Some (Inr res_i, tr_i)
     \<and> while_loop 2 (toy one_fails) ([str_of ''#a'', str_of ''#b''] ! i) 2 (2 mod 100)
         initial_state tr_i = Some (Inr st, tr_i')
     \<and> positive ?res ! i = positive_tweets st
     \<and> negative ?res ! i = negative_tweets st
     \<and> neutral ?res ! i = neutral_tweets st"
    by simp
  then have "\<exists>res_i tr_i st tr_i'.
       for_hashtags 2 (toy one_fails) 2 (take 1 [str_of ''#a'', str_of ''#b''])
         empty_results [] = Some (Inr res_i, tr_i)
     \<and> while_loop 2 (toy one_fails) ([str_of ''#a'', str_of ''#b''] ! 1) 2 (2 mod 100)
         initial_state tr_i = Some (Inr st, tr_i')
     \<and> positive ?res ! 1 = positive_tweets st
     \<and> negative ?res ! 1 = negative_tweets st
     \<and> neutral ?res ! 1 = neutral_tweets st"
    by (rule allE[of _ 1]) simp
  with h show ?thesis by simp
qed

end
